theory Spec2Isabelle
  imports Main "HOL-Library.FSet" "HOL-Library.Sublist"
begin

section \<open>Strings\<close>

text \<open>
  A Python \<open>str\<close> is modelled as a \<open>string\<close>; a \<open>char\<close> stands for the code point
  of the same number, so the model covers the strings over the code points 0 to 255.
  On that range the three character tests below are the ones of Python 3:
  \<open>str.isspace\<close>, \<open>str.isdigit\<close> and \<open>str.lower\<close>.
\<close>

definition isspace :: "char \<Rightarrow> bool" where
  "isspace c =
     (let n = (of_char c :: nat)
      in (9 \<le> n \<and> n \<le> 13) \<or> (28 \<le> n \<and> n \<le> 32) \<or> n = 133 \<or> n = 160)"

definition isdigit_char :: "char \<Rightarrow> bool" where
  "isdigit_char c =
     (let n = (of_char c :: nat)
      in (48 \<le> n \<and> n \<le> 57) \<or> n = 178 \<or> n = 179 \<or> n = 185)"

text \<open>\<open>s.isdigit()\<close>: false on the empty string.\<close>

definition isdigit :: "string \<Rightarrow> bool" where
  "isdigit s = (s \<noteq> [] \<and> list_all isdigit_char s)"

definition lower_char :: "char \<Rightarrow> char" where
  "lower_char c =
     (let n = (of_char c :: nat)
      in if (65 \<le> n \<and> n \<le> 90) \<or> (192 \<le> n \<and> n \<le> 222 \<and> n \<noteq> 215)
         then char_of (n + 32) else c)"

definition lower :: "string \<Rightarrow> string" where
  "lower s = map lower_char s"

text \<open>\<open>s.strip()\<close>: white space removed at both ends.\<close>

definition strip :: "string \<Rightarrow> string" where
  "strip s = rev (dropWhile isspace (rev (dropWhile isspace s)))"

text \<open>\<open>s.split(sep)\<close> for a one-character separator and no split limit.\<close>

fun split_on :: "char \<Rightarrow> string \<Rightarrow> string list" where
  "split_on sep [] = [[]]"
| "split_on sep (c # cs) =
     (if c = sep then [] # split_on sep cs
      else (case split_on sep cs of
              [] \<Rightarrow> [[c]]
            | p # ps \<Rightarrow> (c # p) # ps))"

text \<open>\<open>sep.join(xs)\<close>.\<close>

fun join :: "string \<Rightarrow> string list \<Rightarrow> string" where
  "join sep [] = []"
| "join sep [x] = x"
| "join sep (x # y # ys) = x @ sep @ join sep (y # ys)"

text \<open>\<open>str(n)\<close> for a non-negative integer: its decimal digits.\<close>

definition digit_char :: "nat \<Rightarrow> char" where
  "digit_char d = char_of (48 + d)"

fun str :: "nat \<Rightarrow> string" where
  "str n = (if n < 10 then [digit_char n] else str (n div 10) @ [digit_char (n mod 10)])"

declare str.simps [simp del]

text \<open>
  Reading a decimal numeral back, used to show that \<open>str\<close> is injective.
\<close>

definition digit_val :: "char \<Rightarrow> nat" where
  "digit_val c = of_char c - 48"

definition int_of :: "string \<Rightarrow> nat" where
  "int_of s = foldl (\<lambda>a c. 10 * a + digit_val c) 0 s"

section \<open>Login name generator\<close>

text \<open>
  The registry \<open>existing_logins\<close> is a Python \<open>set\<close> of strings: a finite set.
\<close>

type_synonym registry = "string fset"

definition initials_of :: "string \<Rightarrow> string \<Rightarrow> string" where
  "initials_of given_name middle_name =
     (let initials = lower (take 1 given_name)
      in if middle_name \<noteq> [] then initials @ lower (take 1 middle_name) else initials)"

definition base_name_of :: "string \<Rightarrow> string \<Rightarrow> string \<Rightarrow> string" where
  "base_name_of given_name middle_name family_name =
     take 8 (lower (initials_of given_name middle_name @ family_name))"

text \<open>The candidates that the collision loop can still reach from \<open>counter\<close>.\<close>

definition taken_from :: "registry \<Rightarrow> string \<Rightarrow> nat \<Rightarrow> nat set" where
  "taken_from R base counter = {k. counter \<le> k \<and> base @ str k |\<in>| R}"

lemma int_of_snoc: "int_of (s @ [c]) = 10 * int_of s + digit_val c"
  by (simp add: int_of_def)

lemma digit_val_digit_char: "d < 10 \<Longrightarrow> digit_val (digit_char d) = d"
  by (simp add: digit_val_def digit_char_def)

lemma int_of_str: "int_of (str n) = n"
proof (induction n rule: str.induct)
  case (1 n)
  show ?case
  proof (cases "n < 10")
    case True
    then show ?thesis
      by (subst str.simps) (simp add: int_of_def digit_val_digit_char)
  next
    case False
    then have "int_of (str (n div 10)) = n div 10"
      using "1" by simp
    with False show ?thesis
      by (subst str.simps) (simp add: int_of_snoc digit_val_digit_char)
  qed
qed

lemma str_inj: "str a = str b \<Longrightarrow> a = b"
  by (metis int_of_str)

lemma finite_taken_from: "finite (taken_from R base counter)"
proof -
  have "inj (\<lambda>k. base @ str k)"
    by (rule injI) (simp add: str_inj)
  then have "finite ((\<lambda>k. base @ str k) -` fset R)"
    by (rule finite_vimageI [rotated]) simp
  moreover have "taken_from R base counter \<subseteq> (\<lambda>k. base @ str k) -` fset R"
    by (auto simp: taken_from_def)
  ultimately show ?thesis
    by (rule rev_finite_subset)
qed

lemma taken_from_step:
  "taken_from R base counter =
     (if base @ str counter |\<in>| R then insert counter (taken_from R base (Suc counter))
      else taken_from R base (Suc counter))"
  by (auto simp: taken_from_def Suc_le_eq le_less)

lemma card_taken_from_step:
  "card (taken_from R base counter) =
     (if base @ str counter |\<in>| R then 1 else 0) + card (taken_from R base (Suc counter))"
proof -
  have "counter \<notin> taken_from R base (Suc counter)"
    by (simp add: taken_from_def)
  moreover have "finite (taken_from R base (Suc counter))"
    by (rule finite_taken_from)
  ultimately have "card (insert counter (taken_from R base (Suc counter))) =
      Suc (card (taken_from R base (Suc counter)))"
    by (rule card_insert_disjoint [rotated])
  then show ?thesis
    by (simp add: taken_from_step [of R base counter])
qed

text \<open>
  The loop \<open>while username in existing_logins: username = base_name + str(counter);
  counter += 1\<close>, on its two variables.
\<close>

function collision_loop :: "registry \<Rightarrow> string \<Rightarrow> string \<Rightarrow> nat \<Rightarrow> string \<times> nat" where
  "collision_loop R base username counter =
     (if username |\<in>| R then collision_loop R base (base @ str counter) (counter + 1)
      else (username, counter))"
  by pat_completeness auto
termination
proof (relation "measure (\<lambda>(R, base, username, counter).
         (if username |\<in>| R then 1 else 0) + card (taken_from R base counter))")
  show "wf (measure (\<lambda>(R, base, username, counter).
         (if username |\<in>| R then 1 else 0) + card (taken_from R base counter)))"
    by simp
next
  fix R :: registry and base username :: string and counter :: nat
  assume "username |\<in>| R"
  then show "((R, base, base @ str counter, counter + 1), (R, base, username, counter))
      \<in> measure (\<lambda>(R, base, username, counter).
         (if username |\<in>| R then 1 else 0) + card (taken_from R base counter))"
    using card_taken_from_step [of R base counter] by simp
qed

declare collision_loop.simps [simp del]

definition create_login_name ::
  "string \<Rightarrow> string \<Rightarrow> string \<Rightarrow> registry \<Rightarrow> string \<times> registry" where
  "create_login_name given_name middle_name family_name existing_logins =
     (let base_name = base_name_of given_name middle_name family_name;
          (username, counter) = collision_loop existing_logins base_name base_name 1
      in (username, finsert username existing_logins))"

text \<open>
  The same loop as the source writes it, over a set that need not be finite; \<open>None\<close>
  stands for a loop that does not return.
\<close>

partial_function (option) collision_while ::
  "string set \<Rightarrow> string \<Rightarrow> string \<Rightarrow> nat \<Rightarrow> (string \<times> nat) option" where
  "collision_while R base username counter =
     (if username \<in> R then collision_while R base (base @ str counter) (counter + 1)
      else Some (username, counter))"

text \<open>
  The lowercase first character of a name, or nothing when the name is empty: the
  words of the specification for one initial.
\<close>

definition first_lower :: "string \<Rightarrow> string" where
  "first_lower s = (case s of [] \<Rightarrow> [] | c # _ \<Rightarrow> [lower_char c])"

section \<open>Record parser\<close>

text \<open>
  What the body of the line loop of \<open>read_input_files\<close> decides for one raw line,
  before the generator is called: the line is dropped silently, dropped with a warning
  (the id and the stripped line are kept for the message), or its five fields are known.
\<close>

datatype line_outcome =
    Discarded
  | BadId string string
  | Fields string string string string string

definition parse_line :: "string \<Rightarrow> line_outcome" where
  "parse_line raw =
     (let line = strip raw
      in if line = [] then Discarded
         else
           let parts = map strip (split_on CHR '':'' line)
           in if length parts < 4 then Discarded
              else
                let user_id = parts ! 0
                in if \<not> isdigit user_id then BadId user_id line
                   else
                     let given_name = parts ! 1;
                         (middle_name, surname, department) =
                           (if length parts = 5 then (parts ! 2, parts ! 3, parts ! 4)
                            else if length parts = 4 then ([], parts ! 2, parts ! 3)
                            else if length parts > 5
                              then (parts ! 2, parts ! 3, join '':'' (drop 4 parts))
                            else ([], [], []))
                     in if strip surname = [] then Discarded
                        else Fields user_id given_name middle_name surname department)"

definition output_line ::
  "string \<Rightarrow> string \<Rightarrow> string \<Rightarrow> string \<Rightarrow> string \<Rightarrow> string \<Rightarrow> string" where
  "output_line user_id login given_name middle_name surname department =
     user_id @ '':'' @ login @ '':'' @ given_name @ '':'' @ middle_name @ '':'' @
     surname @ '':'' @ department"

definition warning_text :: "string \<Rightarrow> string \<Rightarrow> string" where
  "warning_text user_id line =
     ''[Warning] Invalid non-numeric ID '' @ [CHR 0x27] @ user_id @ [CHR 0x27] @
     '' in line: '' @ line @ ''. Skipping...'' @ [CHR 0x0A]"

definition error_text :: "string \<Rightarrow> string \<Rightarrow> string" where
  "error_text file_path msg =
     ''[Error] Unexpected error reading '' @ file_path @ '': '' @ msg @ [CHR 0x0A]"

text \<open>
  The state of a run: the list \<open>combined_records\<close> being built, the shared set
  \<open>existing_logins\<close>, and what has been written to the error stream.
\<close>

record run_state =
  combined_records :: "string list"
  existing_logins :: registry
  stderr :: "string list"

definition process_line :: "string \<Rightarrow> run_state \<Rightarrow> run_state" where
  "process_line raw s =
     (case parse_line raw of
        Discarded \<Rightarrow> s
      | BadId user_id line \<Rightarrow> s\<lparr>stderr := stderr s @ [warning_text user_id line]\<rparr>
      | Fields user_id given_name middle_name surname department \<Rightarrow>
          (let (login, logins) =
                 create_login_name given_name middle_name surname (existing_logins s)
           in s\<lparr>combined_records := combined_records s @
                   [output_line user_id login given_name middle_name surname department],
                 existing_logins := logins\<rparr>))"

text \<open>
  Opening and reading a file: \<open>open\<close> raises (\<open>OpenFails\<close>, with the message of
  the exception), or the iteration over the file yields some lines and then either ends
  or raises (\<open>Reads\<close>, with the lines yielded and the message of the exception, if any).
  The \<open>try\<close> block encloses the whole loop, so the handler runs after the lines read
  so far have been processed.

  An input file of a run is its path together with what opening and reading that path
  does in the run; \<open>files\<close> is the list of them, in the order of the paths given.
\<close>

datatype file_read =
    OpenFails string
  | Reads "string list" "string option"

type_synonym input_file = "string \<times> file_read"

fun process_file :: "input_file \<Rightarrow> run_state \<Rightarrow> run_state" where
  "process_file (file_path, OpenFails msg) s =
     s\<lparr>stderr := stderr s @ [error_text file_path msg]\<rparr>"
| "process_file (file_path, Reads lines failure) s =
     (let s' = fold process_line lines s
      in case failure of
           None \<Rightarrow> s'
         | Some msg \<Rightarrow> s'\<lparr>stderr := stderr s' @ [error_text file_path msg]\<rparr>)"

definition read_input_files :: "input_file list \<Rightarrow> registry \<Rightarrow> run_state" where
  "read_input_files files logins =
     fold process_file files
       \<lparr>combined_records = [], existing_logins = logins, stderr = []\<rparr>"

text \<open>
  The first two fields of an output record \<open>ID:login:...\<close>, read back from the
  string: its id and its login.
\<close>

definition record_login :: "string \<Rightarrow> string" where
  "record_login r = (case split_on CHR '':'' r of _ # login # _ \<Rightarrow> login | _ \<Rightarrow> [])"

definition record_id :: "string \<Rightarrow> string" where
  "record_id r = (case split_on CHR '':'' r of user_id # _ \<Rightarrow> user_id | _ \<Rightarrow> [])"

text \<open>
  The acceptance condition in the words of the specification: the stripped line is not
  empty, it has at least 4 stripped parts, the first part passes \<open>isdigit\<close>, and the
  surname part (\<open>parts[2]\<close> of 4 parts, \<open>parts[3]\<close> otherwise) is not empty when
  stripped.
\<close>

definition accepts_line :: "string \<Rightarrow> bool" where
  "accepts_line raw =
     (let line = strip raw; parts = map strip (split_on CHR '':'' line)
      in line \<noteq> [] \<and> 4 \<le> length parts \<and> isdigit (parts ! 0) \<and>
         strip (if length parts = 4 then parts ! 2 else parts ! 3) \<noteq> [])"

text \<open>
  The lines that get a warning: the stripped line is not empty, it has at least 4
  stripped parts, and the first part fails \<open>isdigit\<close>.
\<close>

definition warns_line :: "string \<Rightarrow> bool" where
  "warns_line raw =
     (let line = strip raw; parts = map strip (split_on CHR '':'' line)
      in line \<noteq> [] \<and> 4 \<le> length parts \<and> \<not> isdigit (parts ! 0))"

text \<open>
  The field mapping in the words of the specification, from the stripped parts of a
  line to (id, given name, middle name, surname, department).
\<close>

definition field_mapping :: "string list \<Rightarrow> string \<times> string \<times> string \<times> string \<times> string" where
  "field_mapping parts =
     (if length parts = 4 then (parts ! 0, parts ! 1, [], parts ! 2, parts ! 3)
      else if length parts = 5 then (parts ! 0, parts ! 1, parts ! 2, parts ! 3, parts ! 4)
      else (parts ! 0, parts ! 1, parts ! 2, parts ! 3, join '':'' (drop 4 parts)))"

text \<open>
  An output record belongs to a raw line: it is the formatted record of the fields of
  that line, with the login the record carries.
\<close>

definition matches :: "string \<Rightarrow> string \<Rightarrow> bool" where
  "matches r raw =
     (case parse_line raw of
        Fields user_id given_name middle_name surname department \<Rightarrow>
          r = output_line user_id (record_login r) given_name middle_name surname department
      | _ \<Rightarrow> False)"

text \<open>The lines that the iteration over a file yields, and those of a list of files.\<close>

fun lines_read :: "input_file \<Rightarrow> string list" where
  "lines_read (file_path, OpenFails msg) = []"
| "lines_read (file_path, Reads lines failure) = lines"

definition all_lines :: "input_file list \<Rightarrow> string list" where
  "all_lines files = concat (map lines_read files)"

text \<open>
  A sequence of calls of \<open>create_login_name\<close> on one shared registry: the logins
  returned, in call order, and the registry after the last call.
\<close>

fun generate_all :: "(string \<times> string \<times> string) list \<Rightarrow> registry \<Rightarrow> string list \<times> registry" where
  "generate_all [] logins = ([], logins)"
| "generate_all ((given_name, middle_name, surname) # calls) logins =
     (let (login, logins1) = create_login_name given_name middle_name surname logins;
          (rest, logins2) = generate_all calls logins1
      in (login # rest, logins2))"

text \<open>
  Two states agree on the records and on the registry (the error stream is left out).
\<close>

definition same_output :: "run_state \<Rightarrow> run_state \<Rightarrow> bool" where
  "same_output s t =
     (combined_records s = combined_records t \<and> existing_logins s = existing_logins t)"

section \<open>Properties of the generator\<close>

lemma collision_loop_free: "username |\<notin>| R \<Longrightarrow> collision_loop R base username counter = (username, counter)"
  by (subst collision_loop.simps) simp

lemma collision_loop_taken:
  "username |\<in>| R \<Longrightarrow>
   collision_loop R base username counter = collision_loop R base (base @ str counter) (Suc counter)"
  by (subst collision_loop.simps) simp

lemma collision_loop_fresh: "fst (collision_loop R base username counter) |\<notin>| R"
proof (induction R base username counter rule: collision_loop.induct)
  case (1 R base username counter)
  show ?case
  proof (cases "username |\<in>| R")
    case True
    with "1" show ?thesis by (simp add: collision_loop_taken)
  next
    case False
    then show ?thesis by (simp add: collision_loop_free)
  qed
qed

text \<open>
  From the candidate with suffix \<open>c\<close> the loop stops at the least suffix from \<open>c\<close> on
  that is free.
\<close>
lemma collision_loop_suffix:
  "\<exists>k. c \<le> k \<and> collision_loop R base (base @ str c) (Suc c) = (base @ str k, Suc k)
       \<and> base @ str k |\<notin>| R \<and> (\<forall>j. c \<le> j \<and> j < k \<longrightarrow> base @ str j |\<in>| R)"
proof (induction "card (taken_from R base c)" arbitrary: c)
  case 0
  have "c \<notin> taken_from R base c"
    using 0 finite_taken_from [of R base c] by simp
  then have "base @ str c |\<notin>| R"
    by (simp add: taken_from_def)
  then show ?case
    by (intro exI [of _ c]) (auto simp: collision_loop_free)
next
  case (Suc n)
  show ?case
  proof (cases "base @ str c |\<in>| R")
    case False
    then show ?thesis
      by (intro exI [of _ c]) (auto simp: collision_loop_free)
  next
    case True
    then have "n = card (taken_from R base (Suc c))"
      using Suc.hyps(2) card_taken_from_step [of R base c] by simp
    then obtain k where k: "Suc c \<le> k"
        "collision_loop R base (base @ str (Suc c)) (Suc (Suc c)) = (base @ str k, Suc k)"
        "base @ str k |\<notin>| R" "\<forall>j. Suc c \<le> j \<and> j < k \<longrightarrow> base @ str j |\<in>| R"
      using Suc.hyps(1) by blast
    have "\<forall>j. c \<le> j \<and> j < k \<longrightarrow> base @ str j |\<in>| R"
      using k(4) True by (metis Suc_leI le_neq_implies_less)
    with k True show ?thesis
      by (intro exI [of _ k]) (simp add: collision_loop_taken)
  qed
qed

lemma create_login_name_fresh: "fst (create_login_name g m f R) |\<notin>| R"
  using collision_loop_fresh [of R "base_name_of g m f" "base_name_of g m f" 1]
  by (simp add: create_login_name_def Let_def case_prod_beta)

lemma create_login_name_registry:
  "snd (create_login_name g m f R) = finsert (fst (create_login_name g m f R)) R"
  by (simp add: create_login_name_def Let_def case_prod_beta)

lemma create_login_name_base:
  "base_name_of g m f |\<notin>| R \<Longrightarrow> fst (create_login_name g m f R) = base_name_of g m f"
  by (simp add: create_login_name_def Let_def collision_loop_free)

lemma create_login_name_suffix:
  assumes "base_name_of g m f |\<in>| R"
  shows "\<exists>k. 1 \<le> k \<and> fst (create_login_name g m f R) = base_name_of g m f @ str k
       \<and> (\<forall>j. 1 \<le> j \<and> j < k \<longrightarrow> base_name_of g m f @ str j |\<in>| R)"
proof -
  obtain k where k: "1 \<le> k"
      "collision_loop R (base_name_of g m f) (base_name_of g m f @ str 1) (Suc 1)
         = (base_name_of g m f @ str k, Suc k)"
      "\<forall>j. 1 \<le> j \<and> j < k \<longrightarrow> base_name_of g m f @ str j |\<in>| R"
    using collision_loop_suffix [of 1 R "base_name_of g m f"] by blast
  have "fst (create_login_name g m f R) = base_name_of g m f @ str k"
    using assms k(2) by (simp add: create_login_name_def Let_def collision_loop_taken)
  with k show ?thesis by blast
qed

lemma length_lower: "length (lower s) = length s"
  by (simp add: lower_def)

lemma of_char_lower_char:
  "of_char (lower_char c) = (let n = (of_char c :: nat)
      in if (65 \<le> n \<and> n \<le> 90) \<or> (192 \<le> n \<and> n \<le> 222 \<and> n \<noteq> 215) then n + 32 else n)"
  by (auto simp: lower_char_def Let_def)

lemma lower_char_idem: "lower_char (lower_char c) = lower_char c"
proof -
  define n :: nat where "n = of_char (lower_char c)"
  have "\<not> ((65 \<le> n \<and> n \<le> 90) \<or> (192 \<le> n \<and> n \<le> 222 \<and> n \<noteq> 215))"
    unfolding n_def by (auto simp: of_char_lower_char Let_def)
  then show ?thesis
    unfolding lower_char_def [of "lower_char c"] Let_def n_def [symmetric] by (rule if_not_P)
qed

lemma lower_idem: "lower (lower s) = lower s"
  by (simp add: lower_def lower_char_idem)

lemma lower_append: "lower (a @ b) = lower a @ lower b"
  by (simp add: lower_def)

lemma lower_take: "lower (take n s) = take n (lower s)"
  by (simp add: lower_def take_map)

lemma lower_initials: "lower (initials_of g m) = initials_of g m"
  by (simp add: initials_of_def Let_def lower_append lower_idem)

lemma length_initials: "length (initials_of g m) \<le> 2"
  by (auto simp: initials_of_def Let_def length_lower)

lemma base_name_unfold:
  "base_name_of g m f = take 8 (initials_of g m @ lower f)"
  by (simp add: base_name_of_def lower_append lower_initials)

lemma prefix_initials_base: "prefix (initials_of g m) (base_name_of g m f)"
  using length_initials [of g m] by (simp add: base_name_unfold prefix_def)

lemma length_base_name:
  "length (base_name_of g m f) = min 8 (length (initials_of g m @ f))"
  by (simp add: base_name_of_def length_lower min.commute)


lemma prefix_base_login: "prefix (base_name_of g m f) (fst (create_login_name g m f R))"
proof (cases "base_name_of g m f |\<in>| R")
  case True
  then show ?thesis
    using create_login_name_suffix [of g m f R] by auto
next
  case False
  then show ?thesis
    by (simp add: create_login_name_base)
qed

lemma initials_first_lower: "initials_of g m = first_lower g @ first_lower m"
  by (cases g; cases m) (simp_all add: initials_of_def first_lower_def lower_def)

lemma create_login_name_member:
  "fst (create_login_name g m f R) |\<in>| snd (create_login_name g m f R)"
  by (simp add: create_login_name_registry)

lemma collision_while_total:
  "collision_while (fset R) base username counter = Some (collision_loop R base username counter)"
proof (induction R base username counter rule: collision_loop.induct)
  case (1 R base username counter)
  show ?case
  proof (cases "username |\<in>| R")
    case True
    with "1" show ?thesis
      by (subst collision_while.simps) (simp add: collision_loop_taken)
  next
    case False
    then show ?thesis
      by (subst collision_while.simps) (simp add: collision_loop_free)
  qed
qed

section \<open>Properties of the parser\<close>

lemma split_on_nonempty: "split_on sep s \<noteq> []"
  by (induction s) (auto split: list.splits)

lemma split_on_no_sep: "p \<in> set (split_on sep s) \<Longrightarrow> sep \<notin> set p"
  by (induction s arbitrary: p) (auto split: if_splits list.splits)

lemma split_on_append:
  "sep \<notin> set a \<Longrightarrow> split_on sep (a @ sep # r) = a # split_on sep r"
  by (induction a) (auto split: list.splits)

lemma set_strip: "set (strip s) \<subseteq> set s"
  unfolding strip_def by (metis set_dropWhileD set_rev subsetI)

lemma strip_no_sep: "c \<notin> set s \<Longrightarrow> c \<notin> set (strip s)"
  using set_strip by blast

lemma parts_no_colon:
  "p \<in> set (map strip (split_on CHR '':'' s)) \<Longrightarrow> CHR '':'' \<notin> set p"
  using split_on_no_sep strip_no_sep by fastforce

lemma lower_char_colon: "lower_char c = CHR '':'' \<Longrightarrow> c = CHR '':''"
proof -
  assume "lower_char c = CHR '':''"
  then have "(of_char (lower_char c) :: nat) = 58"
    by simp
  then have "(of_char c :: nat) = 58"
    by (auto simp: of_char_lower_char Let_def split: if_splits)
  then have "(of_char c :: nat) = of_char CHR '':''"
    by simp
  then show ?thesis
    by (simp only: of_char_eq_iff)
qed

lemma lower_no_colon: "CHR '':'' \<notin> set s \<Longrightarrow> CHR '':'' \<notin> set (lower s)"
  by (auto simp: lower_def dest: lower_char_colon [OF sym])

lemma digit_char_colon: "d < 10 \<Longrightarrow> digit_char d \<noteq> CHR '':''"
proof
  assume "d < 10" "digit_char d = CHR '':''"
  then have "(of_char (digit_char d) :: nat) = 58"
    by simp
  with \<open>d < 10\<close> show False
    by (simp add: digit_char_def)
qed

lemma str_no_colon: "CHR '':'' \<notin> set (str n)"
proof (induction n rule: str.induct)
  case (1 n)
  show ?case
  proof (cases "n < 10")
    case True
    then show ?thesis
      using digit_char_colon [of n] by (subst str.simps) auto
  next
    case False
    then show ?thesis
      using "1" digit_char_colon [of "n mod 10"] by (subst str.simps) auto
  qed
qed

lemma isdigit_no_colon: "isdigit s \<Longrightarrow> CHR '':'' \<notin> set s"
  by (auto simp: isdigit_def list_all_iff isdigit_char_def Let_def)

lemma initials_no_colon:
  "CHR '':'' \<notin> set g \<Longrightarrow> CHR '':'' \<notin> set m \<Longrightarrow> CHR '':'' \<notin> set (initials_of g m)"
  using lower_no_colon [of "take 1 g"] lower_no_colon [of "take 1 m"]
  by (auto simp: initials_of_def Let_def dest: in_set_takeD)

lemma base_name_no_colon:
  assumes "CHR '':'' \<notin> set g" "CHR '':'' \<notin> set m" "CHR '':'' \<notin> set f"
  shows "CHR '':'' \<notin> set (base_name_of g m f)"
proof -
  have "CHR '':'' \<notin> set (initials_of g m @ f)"
    using assms initials_no_colon by simp
  then have "CHR '':'' \<notin> set (lower (initials_of g m @ f))"
    by (rule lower_no_colon)
  then show ?thesis
    unfolding base_name_of_def by (blast dest: in_set_takeD)
qed

lemma login_no_colon:
  assumes "CHR '':'' \<notin> set g" "CHR '':'' \<notin> set m" "CHR '':'' \<notin> set f"
  shows "CHR '':'' \<notin> set (fst (create_login_name g m f R))"
proof (cases "base_name_of g m f |\<in>| R")
  case True
  then obtain k where "fst (create_login_name g m f R) = base_name_of g m f @ str k"
    using create_login_name_suffix by blast
  then show ?thesis
    using base_name_no_colon [OF assms] str_no_colon by simp
next
  case False
  then show ?thesis
    using base_name_no_colon [OF assms] by (simp add: create_login_name_base)
qed

lemma record_login_output_line:
  "CHR '':'' \<notin> set user_id \<Longrightarrow> CHR '':'' \<notin> set login \<Longrightarrow>
   record_login (output_line user_id login g m sn d) = login"
  by (simp add: record_login_def output_line_def split_on_append split: list.splits)

lemma record_id_output_line:
  "CHR '':'' \<notin> set user_id \<Longrightarrow> record_id (output_line user_id login g m sn d) = user_id"
  by (simp add: record_id_def output_line_def split_on_append)

lemma parse_line_Fields:
  assumes "parse_line raw = Fields user_id g m sn d"
  shows "isdigit user_id" "CHR '':'' \<notin> set g" "CHR '':'' \<notin> set m" "CHR '':'' \<notin> set sn" "sn \<noteq> []"
proof -
  define parts where "parts = map strip (split_on CHR '':'' (strip raw))"
  have nc: "\<And>k. k < length parts \<Longrightarrow> CHR '':'' \<notin> set (parts ! k)"
    unfolding parts_def by (rule parts_no_colon) (rule nth_mem)
  have len: "4 \<le> length parts"
    using assms unfolding parse_line_def Let_def parts_def [symmetric]
    by (auto split: if_splits)
  have id: "user_id = parts ! 0" "isdigit (parts ! 0)" "g = parts ! 1"
    using assms unfolding parse_line_def Let_def parts_def [symmetric]
    by (auto split: if_splits prod.splits)
  have rest: "(m = [] \<or> m = parts ! 2) \<and> (sn = parts ! 2 \<or> sn = parts ! 3) \<and> strip sn \<noteq> []"
    using assms unfolding parse_line_def Let_def parts_def [symmetric]
    by (auto split: if_splits prod.splits)
  show "isdigit user_id" using id by simp
  show "CHR '':'' \<notin> set g" using id nc [of 1] len by simp
  show "CHR '':'' \<notin> set m" using rest nc [of 2] len by auto
  show "CHR '':'' \<notin> set sn" using rest nc [of 2] nc [of 3] len by auto
  show "sn \<noteq> []" using rest by (auto simp: strip_def)
qed

lemma parse_line_cases:
  "parse_line raw =
     (if accepts_line raw
      then (case field_mapping (map strip (split_on CHR '':'' (strip raw))) of
              (user_id, g, m, sn, d) \<Rightarrow> Fields user_id g m sn d)
      else if warns_line raw
        then BadId (map strip (split_on CHR '':'' (strip raw)) ! 0) (strip raw)
      else Discarded)"
  unfolding parse_line_def accepts_line_def warns_line_def field_mapping_def Let_def
  by (auto split: prod.splits)

lemma accepts_not_warns: "accepts_line raw \<Longrightarrow> \<not> warns_line raw"
  by (auto simp: accepts_line_def warns_line_def Let_def)

lemma accepts_line_Fields:
  "accepts_line raw \<longleftrightarrow> (\<exists>user_id g m sn d. parse_line raw = Fields user_id g m sn d)"
  by (auto simp: parse_line_cases split: prod.splits)

lemma process_line_Fields:
  "parse_line raw = Fields user_id g m sn d \<Longrightarrow>
   process_line raw s =
     s\<lparr>combined_records := combined_records s @
          [output_line user_id (fst (create_login_name g m sn (existing_logins s))) g m sn d],
       existing_logins := finsert (fst (create_login_name g m sn (existing_logins s)))
          (existing_logins s)\<rparr>"
  by (simp add: process_line_def case_prod_beta create_login_name_registry)

lemma process_line_rejected:
  "\<not> accepts_line raw \<Longrightarrow>
   combined_records (process_line raw s) = combined_records s \<and>
   existing_logins (process_line raw s) = existing_logins s"
  by (simp add: process_line_def parse_line_cases)

lemma process_line_stderr:
  "stderr (process_line raw s) =
     stderr s @ (if warns_line raw
                 then [warning_text (map strip (split_on CHR '':'' (strip raw)) ! 0) (strip raw)]
                 else [])"
  by (auto simp: process_line_def parse_line_cases case_prod_beta split: prod.splits dest: accepts_not_warns)

section \<open>Properties of a run\<close>

lemma process_line_accepted:
  assumes "accepts_line raw"
  shows "\<exists>r. combined_records (process_line raw s) = combined_records s @ [r] \<and>
             matches r raw \<and> record_login r |\<notin>| existing_logins s \<and>
             existing_logins (process_line raw s) = finsert (record_login r) (existing_logins s)"
proof -
  obtain user_id g m sn d where f: "parse_line raw = Fields user_id g m sn d"
    using assms accepts_line_Fields by blast
  define login where "login = fst (create_login_name g m sn (existing_logins s))"
  define r where "r = output_line user_id login g m sn d"
  have nc: "CHR '':'' \<notin> set user_id" "CHR '':'' \<notin> set login"
    using parse_line_Fields [OF f] isdigit_no_colon login_no_colon
    by (simp_all add: login_def)
  then have rl: "record_login r = login"
    by (simp add: r_def record_login_output_line)
  have "process_line raw s =
      s\<lparr>combined_records := combined_records s @ [r],
        existing_logins := finsert login (existing_logins s)\<rparr>"
    using process_line_Fields [OF f] by (simp add: r_def login_def)
  moreover have "matches r raw"
    by (simp add: matches_def f rl) (simp add: r_def)
  moreover have "login |\<notin>| existing_logins s"
    unfolding login_def by (rule create_login_name_fresh)
  ultimately show ?thesis
    by (intro exI [of _ r]) (simp add: rl)
qed

lemma run_lines:
  "\<exists>new. combined_records (fold process_line ls s) = combined_records s @ new \<and>
         list_all2 matches new (filter accepts_line ls) \<and>
         distinct (map record_login new) \<and>
         fset_of_list (map record_login new) |\<inter>| existing_logins s = {||} \<and>
         existing_logins (fold process_line ls s) =
           existing_logins s |\<union>| fset_of_list (map record_login new)"
proof (induction ls arbitrary: s)
  case Nil
  show ?case by simp
next
  case (Cons l ls)
  obtain new where new:
      "combined_records (fold process_line ls (process_line l s)) =
         combined_records (process_line l s) @ new"
      "list_all2 matches new (filter accepts_line ls)"
      "distinct (map record_login new)"
      "fset_of_list (map record_login new) |\<inter>| existing_logins (process_line l s) = {||}"
      "existing_logins (fold process_line ls (process_line l s)) =
         existing_logins (process_line l s) |\<union>| fset_of_list (map record_login new)"
    using Cons.IH [of "process_line l s"] by blast
  show ?case
  proof (cases "accepts_line l")
    case False
    with new process_line_rejected [of l s] show ?thesis
      by (intro exI [of _ new]) simp
  next
    case True
    then obtain r where r:
        "combined_records (process_line l s) = combined_records s @ [r]"
        "matches r l" "record_login r |\<notin>| existing_logins s"
        "existing_logins (process_line l s) = finsert (record_login r) (existing_logins s)"
      using process_line_accepted by blast
    have notin: "record_login r \<notin> set (map record_login new)"
      using new(4) r(4) by (auto simp: fset_of_list_elem [symmetric])
    have disj: "fset_of_list (map record_login (r # new)) |\<inter>| existing_logins s = {||}"
      using new(4) r(3,4) by auto
    show ?thesis
      using True new r notin disj by (intro exI [of _ "r # new"]) auto
  qed
qed

lemma process_line_same_output:
  "same_output s t \<Longrightarrow> same_output (process_line raw s) (process_line raw t)"
  by (cases "parse_line raw")
     (simp_all add: same_output_def process_line_def case_prod_beta)

lemma fold_process_line_same_output:
  "same_output s t \<Longrightarrow> same_output (fold process_line ls s) (fold process_line ls t)"
  by (induction ls arbitrary: s t) (simp_all add: process_line_same_output)

lemma process_file_same_output:
  "same_output (process_file p s) (fold process_line (lines_read p) s)"
  by (cases "(p, s)" rule: process_file.cases)
     (simp_all add: same_output_def Let_def split: option.splits)

lemma same_output_trans: "same_output s t \<Longrightarrow> same_output t u \<Longrightarrow> same_output s u"
  by (simp add: same_output_def)

lemma read_files_same_output:
  "same_output (fold process_file files s) (fold process_line (all_lines files) s)"
proof (induction files arbitrary: s)
  case Nil
  show ?case by (simp add: all_lines_def same_output_def)
next
  case (Cons p ps)
  have "same_output (fold process_file ps (process_file p s))
      (fold process_line (all_lines ps) (process_file p s))"
    by (rule Cons.IH)
  moreover have "same_output (fold process_line (all_lines ps) (process_file p s))
      (fold process_line (all_lines ps) (fold process_line (lines_read p) s))"
    by (rule fold_process_line_same_output) (rule process_file_same_output)
  ultimately show ?case
    by (simp add: all_lines_def same_output_trans)
qed

lemma run_files:
  "list_all2 matches (combined_records (read_input_files files R))
     (filter accepts_line (all_lines files)) \<and>
   distinct (map record_login (combined_records (read_input_files files R))) \<and>
   fset_of_list (map record_login (combined_records (read_input_files files R)))
     |\<inter>| R = {||} \<and>
   existing_logins (read_input_files files R) =
     R |\<union>| fset_of_list (map record_login (combined_records (read_input_files files R)))"
proof -
  define s0 where "s0 = \<lparr>combined_records = [], existing_logins = R, stderr = []\<rparr>"
  have same: "same_output (read_input_files files R) (fold process_line (all_lines files) s0)"
    unfolding read_input_files_def s0_def by (rule read_files_same_output)
  obtain new where new:
      "combined_records (fold process_line (all_lines files) s0) = combined_records s0 @ new"
      "list_all2 matches new (filter accepts_line (all_lines files))"
      "distinct (map record_login new)"
      "fset_of_list (map record_login new) |\<inter>| existing_logins s0 = {||}"
      "existing_logins (fold process_line (all_lines files) s0) =
         existing_logins s0 |\<union>| fset_of_list (map record_login new)"
    using run_lines [of "all_lines files" s0] by blast
  have "combined_records (read_input_files files R) = new"
    using same new(1) by (simp add: same_output_def s0_def)
  moreover have "existing_logins (read_input_files files R) =
      R |\<union>| fset_of_list (map record_login new)"
    using same new(5) by (simp add: same_output_def s0_def)
  ultimately show ?thesis
    using new(2,3,4) by (simp add: s0_def)
qed

lemma read_files_same_lines:
  assumes "all_lines files = all_lines files'"
  shows "same_output (read_input_files files R) (read_input_files files' R)"
proof -
  define s0 where "s0 = \<lparr>combined_records = [], existing_logins = R, stderr = []\<rparr>"
  have "same_output (read_input_files files R) (fold process_line (all_lines files) s0)"
    unfolding read_input_files_def s0_def by (rule read_files_same_output)
  moreover have
    "same_output (read_input_files files' R) (fold process_line (all_lines files') s0)"
    unfolding read_input_files_def s0_def by (rule read_files_same_output)
  ultimately show ?thesis
    using assms by (simp add: same_output_def)
qed

lemma process_file_prefix:
  "prefix (combined_records s) (combined_records (process_file p s))"
proof -
  obtain new where
      "combined_records (fold process_line (lines_read p) s) = combined_records s @ new"
    using run_lines [of "lines_read p" s] by blast
  then show ?thesis
    using process_file_same_output [of p s] by (simp add: same_output_def)
qed

lemma fold_process_file_prefix:
  "prefix (combined_records s) (combined_records (fold process_file files s))"
proof (induction files arbitrary: s)
  case Nil
  show ?case by simp
next
  case (Cons p ps)
  have "prefix (combined_records s) (combined_records (process_file p s))"
    by (rule process_file_prefix)
  also have "prefix \<dots> (combined_records (fold process_file ps (process_file p s)))"
    by (rule Cons.IH)
  finally show ?case by simp
qed

lemma read_files_prefix:
  "prefix (combined_records (read_input_files ps R))
     (combined_records (read_input_files (ps @ qs) R))"
  unfolding read_input_files_def by (simp add: fold_process_file_prefix)

lemma generate_all_inv:
  "distinct (fst (generate_all calls R)) \<and>
   fset_of_list (fst (generate_all calls R)) |\<inter>| R = {||} \<and>
   snd (generate_all calls R) = R |\<union>| fset_of_list (fst (generate_all calls R))"
proof (induction calls arbitrary: R)
  case Nil
  show ?case by simp
next
  case (Cons c calls)
  obtain g m f where c: "c = (g, m, f)"
    by (cases c) auto
  define login where "login = fst (create_login_name g m f R)"
  define R1 where "R1 = finsert login R"
  have call: "create_login_name g m f R = (login, R1)"
    using create_login_name_registry [of g m f R] by (simp add: login_def R1_def prod_eq_iff)
  have fresh: "login |\<notin>| R"
    unfolding login_def by (rule create_login_name_fresh)
  have ih: "distinct (fst (generate_all calls R1))"
      "fset_of_list (fst (generate_all calls R1)) |\<inter>| R1 = {||}"
      "snd (generate_all calls R1) = R1 |\<union>| fset_of_list (fst (generate_all calls R1))"
    using Cons.IH [of R1] by simp_all
  have unfold: "generate_all (c # calls) R =
      (login # fst (generate_all calls R1), snd (generate_all calls R1))"
    by (simp add: c call case_prod_beta)
  have notin: "login \<notin> set (fst (generate_all calls R1))"
    using ih(2) by (auto simp: R1_def fset_of_list_elem [symmetric])
  have disj: "fset_of_list (login # fst (generate_all calls R1)) |\<inter>| R = {||}"
    using ih(2) fresh by (auto simp: R1_def)
  show ?case
    using ih notin disj by (auto simp: unfold R1_def)
qed

lemma str_nonempty: "str n \<noteq> []"
  by (subst str.simps) simp

lemma str_1: "str 1 = ''1''"
  by code_simp

lemma str_Suc_0: "str (Suc 0) = ''1''"
  using str_1 by simp

lemma output_line_join:
  "output_line user_id login g m sn d = join '':'' [user_id, login, g, m, sn, d]"
  by (simp add: output_line_def)

lemma process_line_accepted_record:
  assumes "accepts_line raw"
  shows "combined_records (process_line raw s) = combined_records s @
     [case field_mapping (map strip (split_on CHR '':'' (strip raw))) of
        (user_id, g, m, sn, d) \<Rightarrow>
          output_line user_id (fst (create_login_name g m sn (existing_logins s))) g m sn d]"
proof -
  obtain user_id g m sn d where
      fm: "field_mapping (map strip (split_on CHR '':'' (strip raw))) = (user_id, g, m, sn, d)"
    by (metis prod_cases5)
  then have "parse_line raw = Fields user_id g m sn d"
    using assms by (simp add: parse_line_cases)
  then show ?thesis
    by (simp add: process_line_Fields fm)
qed

lemma run_length:
  "length (combined_records (read_input_files files R)) \<le> length (all_lines files)"
proof -
  have "length (combined_records (read_input_files files R)) =
      length (filter accepts_line (all_lines files))"
    using run_files [of files R] by (blast dest: list_all2_lengthD)
  then show ?thesis by simp
qed

section \<open>Claims\<close>

text \<open>
  C8. For every triple of names and every registry, the login returned by
  \<open>create_login_name\<close> begins with the lowercase first character of the given name
  (nothing when the given name is empty) followed by the lowercase first character of
  the middle name (nothing when the middle name is empty), and the registry returned
  with it contains it. The registry and the length of the surname are arbitrary, so
  the prefix survives both the truncation to 8 characters and a numeric suffix.
\<close>

theorem initials_prefix:
  "prefix (first_lower given_name @ first_lower middle_name)
     (fst (create_login_name given_name middle_name surname R)) \<and>
   fst (create_login_name given_name middle_name surname R)
     |\<in>| snd (create_login_name given_name middle_name surname R)"
proof -
  have "prefix (initials_of given_name middle_name)
      (fst (create_login_name given_name middle_name surname R))"
    using prefix_initials_base prefix_base_login by (rule prefix_order.trans)
  then show ?thesis
    by (simp add: initials_first_lower create_login_name_member)
qed

text \<open>
  C9. For every finite registry the collision loop, run as the source writes it from
  the candidate \<open>base\<close> and the counter 1, returns: it stops at a candidate that is
  not in the registry, and that result is the one the total function
  \<open>collision_loop\<close>, which \<open>create_login_name\<close> uses, computes. The run over a list
  of files is a recursion over the files and their lines with one such call for each
  accepted line, and it returns at most one record for each line read.
\<close>

theorem collision_loop_terminates:
  assumes "finite R"
  shows "(\<exists>username counter.
            collision_while R base base 1 = Some (username, counter) \<and> username \<notin> R \<and>
            collision_loop (Abs_fset R) base base 1 = (username, counter)) \<and>
         length (combined_records (read_input_files files logins)) \<le> length (all_lines files)"
proof -
  have R: "fset (Abs_fset R) = R"
    using assms by (simp add: Abs_fset_inverse)
  have "collision_while (fset (Abs_fset R)) base base 1 =
      Some (collision_loop (Abs_fset R) base base 1)"
    by (rule collision_while_total)
  moreover have "fst (collision_loop (Abs_fset R) base base 1) \<notin> fset (Abs_fset R)"
    using collision_loop_fresh [of "Abs_fset R" base base 1] by simp
  ultimately have "\<exists>username counter.
      collision_while R base base 1 = Some (username, counter) \<and> username \<notin> R \<and>
      collision_loop (Abs_fset R) base base 1 = (username, counter)"
    by (simp add: R) (metis prod.collapse)
  then show ?thesis
    by (simp add: run_length)
qed

theorem collision_loop_terminates_witness:
  "finite {''ab'', ''ab1''} \<and>
   collision_while {''ab'', ''ab1''} ''ab'' ''ab'' 1 = Some (''ab2'', 3)"
proof -
  have R: "Abs_fset {''ab'', ''ab1''} = {|''ab'', ''ab1''|}"
    by (metis fset_inverse fset_simps(1) fset_simps(2))
  have "collision_loop {|''ab'', ''ab1''|} ''ab'' ''ab'' 1 = (''ab2'', 3)"
    by code_simp
  then show ?thesis
    using collision_loop_terminates [of "{''ab'', ''ab1''}" "''ab''"] by (simp add: R)
qed

text \<open>
  C1. Every call of \<open>create_login_name\<close> returns a login that was not in the registry
  before the call and is in the registry the call returns. Hence, for every sequence of
  calls on one shared registry, the logins returned are pairwise different and all of
  them are in the final registry; and for every run of \<open>read_input_files\<close>, over
  any number of files, the logins of the output records are pairwise different.
\<close>

theorem login_uniqueness:
  "fst (create_login_name given_name middle_name surname R)
     |\<in>| snd (create_login_name given_name middle_name surname R) \<and>
   fst (create_login_name given_name middle_name surname R) |\<notin>| R \<and>
   distinct (fst (generate_all calls R)) \<and>
   fset_of_list (fst (generate_all calls R)) |\<subseteq>| snd (generate_all calls R) \<and>
   distinct (map record_login (combined_records (read_input_files files R)))"
proof -
  have "fset_of_list (fst (generate_all calls R)) |\<subseteq>| snd (generate_all calls R)"
    using generate_all_inv [of calls R] by auto
  then show ?thesis
    using generate_all_inv [of calls R] run_files [of files R]
    by (simp add: create_login_name_member create_login_name_fresh)
qed

text \<open>
  C10. A call of \<open>create_login_name\<close> returns the registry it was given with exactly
  one more element, the login it returns, which was not there before. After a run of
  \<open>read_input_files\<close> the registry is its initial contents together with exactly the
  logins of the output records.
\<close>

theorem registry_monotone:
  "snd (create_login_name given_name middle_name surname R) =
     finsert (fst (create_login_name given_name middle_name surname R)) R \<and>
   fst (create_login_name given_name middle_name surname R) |\<notin>| R \<and>
   existing_logins (read_input_files files R) =
     R |\<union>| fset_of_list (map record_login (combined_records (read_input_files files R)))"
  using run_files [of files R]
  by (simp add: create_login_name_registry [symmetric] create_login_name_fresh)

text \<open>
  C7. The output of a run lists one record for each accepted line, in the order of the
  lines: the files in list order and, within a file, the lines in line order. Nothing
  is sorted and nothing is dropped for a repeated id: the records correspond one to one
  to the accepted lines, their logins are pairwise different, and so are the records.
  For instance the same line, with the same id, in two files gives two records with the
  logins \<open>jmurgas\<close> and \<open>jmurgas1\<close>.
\<close>

theorem output_order:
  "list_all2 matches (combined_records (read_input_files files R))
     (filter accepts_line (all_lines files)) \<and>
   all_lines (files @ more_files) = all_lines files @ all_lines more_files \<and>
   all_lines ((file_path, Reads lines failure) # more_files) = lines @ all_lines more_files \<and>
   distinct (map record_login (combined_records (read_input_files files R))) \<and>
   distinct (combined_records (read_input_files files R)) \<and>
   combined_records (read_input_files
       [(''a'', Reads [''4563:Jozef::Murgas:Development''] None),
        (''b'', Reads [''4563:Jozef::Murgas:Development''] None)] {||}) =
     [''4563:jmurgas:Jozef::Murgas:Development'', ''4563:jmurgas1:Jozef::Murgas:Development'']"
proof -
  have d: "distinct (map record_login (combined_records (read_input_files files R)))"
    using run_files [of files R] by simp
  then have "distinct (combined_records (read_input_files files R))"
    by (simp add: distinct_map)
  moreover have "combined_records (read_input_files
       [(''a'', Reads [''4563:Jozef::Murgas:Development''] None),
        (''b'', Reads [''4563:Jozef::Murgas:Development''] None)] {||}) =
     [''4563:jmurgas:Jozef::Murgas:Development'', ''4563:jmurgas1:Jozef::Murgas:Development'']"
    by code_simp
  ultimately show ?thesis
    using d run_files [of files R] by (simp add: all_lines_def)
qed

text \<open>
  C6. The base name has the length of the initials followed by the surname, cut at 8:
  exactly 8 when that string is longer than 8 characters. The login returned is the base
  name itself when the base name is free, and otherwise the base name followed by the
  decimal digits of a counter from 1 on; the suffix is at least one digit and nothing is
  cut after it, so a suffixed login of a full base name is longer than 8 characters, as
  \<open>phufnage1\<close> is.
\<close>

theorem truncation_and_suffix:
  "length (base_name_of given_name middle_name surname) =
     min 8 (length (initials_of given_name middle_name @ surname)) \<and>
   (\<exists>k. 1 \<le> k \<and> str k \<noteq> [] \<and>
      fst (create_login_name given_name middle_name surname R) =
        (if base_name_of given_name middle_name surname |\<in>| R
         then base_name_of given_name middle_name surname @ str k
         else base_name_of given_name middle_name surname)) \<and>
   create_login_name ''Pista'' [] ''HufnagelXtraLong'' {|''phufnage''|} =
     (''phufnage1'', {|''phufnage1'', ''phufnage''|}) \<and>
   length ''phufnage1'' = 9"
proof -
  have "\<exists>k. 1 \<le> k \<and> str k \<noteq> [] \<and>
      fst (create_login_name given_name middle_name surname R) =
        (if base_name_of given_name middle_name surname |\<in>| R
         then base_name_of given_name middle_name surname @ str k
         else base_name_of given_name middle_name surname)"
  proof (cases "base_name_of given_name middle_name surname |\<in>| R")
    case True
    then show ?thesis
      using create_login_name_suffix [of given_name middle_name surname R] str_nonempty
      by auto
  next
    case False
    then show ?thesis
      using str_nonempty [of 1] by (intro exI [of _ 1]) (simp add: create_login_name_base)
  qed
  moreover have "create_login_name ''Pista'' [] ''HufnagelXtraLong'' {|''phufnage''|} =
     (''phufnage1'', {|''phufnage1'', ''phufnage''|})"
    by code_simp
  ultimately show ?thesis
    by (simp add: length_base_name)
qed

text \<open>
  C5. On the empty registry the line \<open>1234:Jozef:Miloslav:Hurban:Legal\<close> gives the
  login \<open>jmhurban\<close> and the record \<open>1234:jmhurban:Jozef:Miloslav:Hurban:Legal\<close>;
  the two lines \<open>1111:Pista::Hufnagel:Sales\<close> and \<open>2222:Pista::Hufnagel:Sales\<close>
  give the logins \<open>phufnage\<close> and \<open>phufnage1\<close>. In general, for two successive
  calls of \<open>create_login_name\<close> from the empty registry whose inputs have the same
  base name, the first returns the base name and the second the base name followed
  by \<open>1\<close>.
\<close>

theorem collision_examples:
  "process_line ''1234:Jozef:Miloslav:Hurban:Legal''
       \<lparr>combined_records = [], existing_logins = {||}, stderr = []\<rparr> =
     \<lparr>combined_records = [''1234:jmhurban:Jozef:Miloslav:Hurban:Legal''],
      existing_logins = {|''jmhurban''|}, stderr = []\<rparr> \<and>
   combined_records (read_input_files
       [(''f'', Reads [''1111:Pista::Hufnagel:Sales'', ''2222:Pista::Hufnagel:Sales''] None)]
       {||}) =
     [''1111:phufnage:Pista::Hufnagel:Sales'', ''2222:phufnage1:Pista::Hufnagel:Sales''] \<and>
   (base_name_of g1 m1 f1 = base_name_of g2 m2 f2 \<longrightarrow>
      fst (create_login_name g1 m1 f1 {||}) = base_name_of g1 m1 f1 \<and>
      fst (create_login_name g2 m2 f2 (snd (create_login_name g1 m1 f1 {||}))) =
        base_name_of g1 m1 f1 @ ''1'')"
proof -
  have first: "fst (create_login_name g1 m1 f1 {||}) = base_name_of g1 m1 f1"
    by (simp add: create_login_name_base)
  have second: "fst (create_login_name g2 m2 f2 (snd (create_login_name g1 m1 f1 {||}))) =
      base_name_of g1 m1 f1 @ ''1''" if same: "base_name_of g1 m1 f1 = base_name_of g2 m2 f2"
  proof -
    define base where "base = base_name_of g2 m2 f2"
    have R: "snd (create_login_name g1 m1 f1 {||}) = {|base|}"
      by (simp add: create_login_name_registry first same base_def)
    have "collision_loop {|base|} base base 1 =
        collision_loop {|base|} base (base @ str 1) (Suc 1)"
      by (rule collision_loop_taken) simp
    moreover have "base @ str 1 |\<notin>| {|base|}"
      using str_nonempty [of 1] by simp
    then have "collision_loop {|base|} base (base @ str 1) (Suc 1) = (base @ str 1, Suc 1)"
      by (rule collision_loop_free)
    ultimately have "collision_loop {|base|} base base 1 = (base @ ''1'', 2)"
      by (simp add: str_Suc_0)
    then have "fst (create_login_name g2 m2 f2 {|base|}) = base @ ''1''"
      by (simp add: create_login_name_def base_def [symmetric])
    then show ?thesis
      by (simp only: R same base_def)
  qed
  have "process_line ''1234:Jozef:Miloslav:Hurban:Legal''
       \<lparr>combined_records = [], existing_logins = {||}, stderr = []\<rparr> =
     \<lparr>combined_records = [''1234:jmhurban:Jozef:Miloslav:Hurban:Legal''],
      existing_logins = {|''jmhurban''|}, stderr = []\<rparr>"
    by code_simp
  moreover have "combined_records (read_input_files
       [(''f'', Reads [''1111:Pista::Hufnagel:Sales'', ''2222:Pista::Hufnagel:Sales''] None)]
       {||}) =
     [''1111:phufnage:Pista::Hufnagel:Sales'', ''2222:phufnage1:Pista::Hufnagel:Sales'']"
    by code_simp
  ultimately show ?thesis
    using first second by blast
qed

theorem collision_examples_witness:
  "base_name_of ''Pista'' [] ''Hufnagel'' = base_name_of ''Peter'' [] ''Hufnagelova'' \<and>
   fst (create_login_name ''Pista'' [] ''Hufnagel'' {||}) = ''phufnage'' \<and>
   fst (create_login_name ''Peter'' [] ''Hufnagelova''
     (snd (create_login_name ''Pista'' [] ''Hufnagel'' {||}))) = ''phufnage1''"
proof -
  have b1: "base_name_of ''Pista'' [] ''Hufnagel'' = ''phufnage''"
    by code_simp
  have b2: "base_name_of ''Peter'' [] ''Hufnagelova'' = ''phufnage''"
    by code_simp
  show ?thesis
    using collision_examples [of "''Pista''" "[]" "''Hufnagel''" "''Peter''" "[]" "''Hufnagelova''"]
    by (simp add: b1 b2)
qed

text \<open>
  C4. For every accepted line the record appended is
  \<open>id:login:given_name:middle_name:surname:department\<close>, where the five fields come
  from the stripped parts of the line by the mapping of the specification: with 4 parts
  the middle name is empty, the surname is \<open>parts[2]\<close> and the department \<open>parts[3]\<close>;
  with 5 parts they are \<open>parts[2]\<close>, \<open>parts[3]\<close> and \<open>parts[4]\<close>; with more than 5
  parts the department is \<open>parts[4:]\<close> joined with colons. The login is the one that
  \<open>create_login_name\<close> returns for these names on the current registry. The line
  \<open>1234:Anna:Smith:IT\<close> gives a record that ends with \<open>:Anna::Smith:IT\<close>, and the
  line \<open>9999:Anna:Marketing:Sales:HR:Global\<close> has the department \<open>HR:Global\<close>.
\<close>

theorem field_mapping_record:
  "(accepts_line raw \<longrightarrow>
      combined_records (process_line raw s) = combined_records s @
        [case field_mapping (map strip (split_on CHR '':'' (strip raw))) of
           (user_id, given_name, middle_name, surname, department) \<Rightarrow>
             output_line user_id
               (fst (create_login_name given_name middle_name surname (existing_logins s)))
               given_name middle_name surname department]) \<and>
   (length p4 = 4 \<longrightarrow> field_mapping p4 = (p4 ! 0, p4 ! 1, [], p4 ! 2, p4 ! 3)) \<and>
   (length p5 = 5 \<longrightarrow> field_mapping p5 = (p5 ! 0, p5 ! 1, p5 ! 2, p5 ! 3, p5 ! 4)) \<and>
   (5 < length p6 \<longrightarrow>
      field_mapping p6 = (p6 ! 0, p6 ! 1, p6 ! 2, p6 ! 3, join '':'' (drop 4 p6))) \<and>
   output_line i l g m sn d = join '':'' [i, l, g, m, sn, d] \<and>
   combined_records (process_line ''1234:Anna:Smith:IT''
       \<lparr>combined_records = [], existing_logins = {||}, stderr = []\<rparr>) =
     [''1234:asmith:Anna::Smith:IT''] \<and>
   suffix '':Anna::Smith:IT'' ''1234:asmith:Anna::Smith:IT'' \<and>
   parse_line ''9999:Anna:Marketing:Sales:HR:Global'' =
     Fields ''9999'' ''Anna'' ''Marketing'' ''Sales'' ''HR:Global''"
proof -
  have "combined_records (process_line ''1234:Anna:Smith:IT''
       \<lparr>combined_records = [], existing_logins = {||}, stderr = []\<rparr>) =
     [''1234:asmith:Anna::Smith:IT'']"
    by code_simp
  moreover have "parse_line ''9999:Anna:Marketing:Sales:HR:Global'' =
     Fields ''9999'' ''Anna'' ''Marketing'' ''Sales'' ''HR:Global''"
    by code_simp
  moreover have "suffix '':Anna::Smith:IT'' ''1234:asmith:Anna::Smith:IT''"
    by (simp add: suffix_def)
  ultimately show ?thesis
    by (simp add: process_line_accepted_record output_line_join field_mapping_def)
qed

theorem field_mapping_record_witness:
  "accepts_line ''9999:Anna:Marketing:Sales:HR:Global'' \<and>
   combined_records (process_line ''9999:Anna:Marketing:Sales:HR:Global''
       \<lparr>combined_records = [''0:x:X::X:X''], existing_logins = {|''amsales''|}, stderr = []\<rparr>) =
     [''0:x:X::X:X'', ''9999:amsales1:Anna:Marketing:Sales:HR:Global''] \<and>
   length [''1'', ''A'', ''B'', ''C''] = 4 \<and>
   field_mapping [''1'', ''A'', ''B'', ''C''] = (''1'', ''A'', [], ''B'', ''C'') \<and>
   length [''1'', ''A'', ''M'', ''B'', ''C''] = 5 \<and>
   field_mapping [''1'', ''A'', ''M'', ''B'', ''C''] = (''1'', ''A'', ''M'', ''B'', ''C'') \<and>
   5 < length [''1'', ''A'', ''M'', ''B'', ''C'', ''D'', ''E''] \<and>
   field_mapping [''1'', ''A'', ''M'', ''B'', ''C'', ''D'', ''E''] =
     (''1'', ''A'', ''M'', ''B'', ''C:D:E'')"
proof -
  have a: "accepts_line ''9999:Anna:Marketing:Sales:HR:Global''"
    by code_simp
  have f: "field_mapping (map strip (split_on CHR '':'' (strip ''9999:Anna:Marketing:Sales:HR:Global''))) =
      (''9999'', ''Anna'', ''Marketing'', ''Sales'', ''HR:Global'')"
    by code_simp
  have l: "fst (create_login_name ''Anna'' ''Marketing'' ''Sales'' {|''amsales''|}) = ''amsales1''"
    by code_simp
  have o: "output_line ''9999'' ''amsales1'' ''Anna'' ''Marketing'' ''Sales'' ''HR:Global'' =
      ''9999:amsales1:Anna:Marketing:Sales:HR:Global''"
    by code_simp
  show ?thesis
    using field_mapping_record [of "''9999:Anna:Marketing:Sales:HR:Global''"
        "\<lparr>combined_records = [''0:x:X::X:X''], existing_logins = {|''amsales''|}, stderr = []\<rparr>"
        "[''1'', ''A'', ''B'', ''C'']" "[''1'', ''A'', ''M'', ''B'', ''C'']"
        "[''1'', ''A'', ''M'', ''B'', ''C'', ''D'', ''E'']"]
    by (simp add: a f l o)
qed

text \<open>
  C2, as the code has it. A file that cannot be opened contributes no record and leaves
  the registry as it is: the run has the records and the registry of the run without
  that file. A file whose reading fails after some lines have been read contributes what
  those lines contribute: the run has the records and the registry of the run in which
  the file ends after those lines. In both cases the message is written to the error
  stream and the run goes on with the remaining files, and the records of the files
  before are a prefix of the output, whatever the later files do.
\<close>

theorem read_failure_contribution:
  "same_output (read_input_files (files @ (file_path, OpenFails msg) # more_files) R)
     (read_input_files (files @ more_files) R) \<and>
   same_output (read_input_files (files @ (file_path, Reads lines (Some msg)) # more_files) R)
     (read_input_files (files @ (file_path, Reads lines None) # more_files) R) \<and>
   process_file (file_path, OpenFails msg) s = s\<lparr>stderr := stderr s @ [error_text file_path msg]\<rparr> \<and>
   process_file (file_path, Reads lines (Some msg)) s =
     (fold process_line lines s)
       \<lparr>stderr := stderr (fold process_line lines s) @ [error_text file_path msg]\<rparr> \<and>
   read_input_files (files @ more_files) R =
     fold process_file more_files (read_input_files files R) \<and>
   prefix (combined_records (read_input_files files R))
     (combined_records (read_input_files (files @ more_files) R))"
proof -
  have "same_output (read_input_files (files @ (file_path, OpenFails msg) # more_files) R)
     (read_input_files (files @ more_files) R)"
    by (rule read_files_same_lines) (simp add: all_lines_def)
  moreover have
    "same_output (read_input_files (files @ (file_path, Reads lines (Some msg)) # more_files) R)
       (read_input_files (files @ (file_path, Reads lines None) # more_files) R)"
    by (rule read_files_same_lines) (simp add: all_lines_def)
  moreover have "read_input_files (files @ more_files) R =
      fold process_file more_files (read_input_files files R)"
    by (simp add: read_input_files_def)
  moreover have "process_file (file_path, OpenFails msg) s =
      s\<lparr>stderr := stderr s @ [error_text file_path msg]\<rparr>"
    by simp
  moreover have "process_file (file_path, Reads lines (Some msg)) s =
     (fold process_line lines s)
       \<lparr>stderr := stderr (fold process_line lines s) @ [error_text file_path msg]\<rparr>"
    by (simp add: Let_def)
  moreover have "prefix (combined_records (read_input_files files R))
     (combined_records (read_input_files (files @ more_files) R))"
    by (rule read_files_prefix)
  ultimately show ?thesis
    by blast
qed

text \<open>
  The claim C2 as stated fails: the iteration over a file yields the line
  \<open>1:A:B:C\<close> and then raises (a decode error in a later chunk of the file); the
  failure is reported, and the file has contributed one record.
\<close>

theorem read_failure_counterexample:
  "read_input_files [(''f'', Reads [''1:A:B:C'' @ [CHR 0x0A]] (Some ''decode error''))] {||} =
     \<lparr>combined_records = [''1:ab:A::B:C''], existing_logins = {|''ab''|},
      stderr = [''[Error] Unexpected error reading f: decode error'' @ [CHR 0x0A]]\<rparr>"
  by code_simp

text \<open>
  What \<open>process_line\<close> does with a raw line: one record is appended when the line
  passes \<open>accepts_line\<close> and none otherwise, and the warning, with the first part and
  the stripped line, is written when the line passes \<open>warns_line\<close>.
\<close>

lemma process_line_outcome:
  "((accepts_line raw \<and>
      (\<exists>r. combined_records (process_line raw s) = combined_records s @ [r])) \<or>
    (\<not> accepts_line raw \<and> combined_records (process_line raw s) = combined_records s)) \<and>
   stderr (process_line raw s) =
     stderr s @
       (if warns_line raw
        then [warning_text (map strip (split_on CHR '':'' (strip raw)) ! 0) (strip raw)]
        else [])"
proof (cases "accepts_line raw")
  case True
  then show ?thesis
    using process_line_accepted [of raw s] process_line_stderr [of raw s] by auto
next
  case False
  then show ?thesis
    using process_line_rejected [of raw s] process_line_stderr [of raw s] by auto
qed

text \<open>
  C3. The line whose four parts are the superscript two (code point 178), \<open>Anna\<close>,
  \<open>Smith\<close> and \<open>IT\<close> has a first part that is not composed of decimal digits, so
  it should give no record and a warning. The test \<open>isdigit\<close> of the code lets the
  superscript two pass: the line gives one record and no warning.
\<close>

theorem line_acceptance_failing_input:
  "map strip (split_on CHR '':'' (strip (CHR 0xB2 # '':Anna:Smith:IT''))) =
     [[CHR 0xB2], ''Anna'', ''Smith'', ''IT''] \<and>
   CHR 0xB2 \<notin> set ''0123456789'' \<and>
   isdigit [CHR 0xB2] \<and>
   process_line (CHR 0xB2 # '':Anna:Smith:IT'')
       \<lparr>combined_records = [], existing_logins = {||}, stderr = []\<rparr> =
     \<lparr>combined_records = [CHR 0xB2 # '':asmith:Anna::Smith:IT''],
      existing_logins = {|''asmith''|}, stderr = []\<rparr>"
  by code_simp

end
